theory Spec2Isabelle
  imports Complex_Main
begin

section \<open>The blog server's query layer (index.mjs)\<close>

text \<open>
  The server imports \<^verbatim>\<open>data/posts.json\<close> once as the array \<^verbatim>\<open>posts\<close> and answers four
  routes from it. Each handler below is the body of the corresponding \<^verbatim>\<open>app.get\<close>
  callback; the value it returns is the object handed to \<^verbatim>\<open>res.json\<close> together with the
  HTTP status.
\<close>

subsection \<open>Data\<close>

text \<open>
  Modelled from the spec: the dataset \<^verbatim>\<open>data/posts.json\<close> is not part of the sources, so
  the shape of a post is the Post entity of the specification's data model. A property a
  JavaScript object may lack (\<^verbatim>\<open>undefined\<close>) is an \<open>option\<close>: \<open>category\<close>, which the
  data model allows to be absent, and \<open>html\<close>, which \<^verbatim>\<open>delete post.html\<close> removes. The
  field \<^verbatim>\<open>id\<close> is written \<open>id'\<close>.
\<close>

record post =
  id' :: string
  uid :: string
  title :: string
  description :: string
  category :: "string option"
  author :: string
  author_image :: string
  featured_image :: string
  first_publication_date :: string
  last_publication_date :: string
  html :: "string option"

text \<open>
  The object passed to \<^verbatim>\<open>res.json\<close> by the two paginating routes. The route with a
  category adds the \<^verbatim>\<open>category\<close> property, here \<open>req_category\<close>, which is \<open>None\<close> for
  the route without one.
\<close>

record page_body =
  req_category :: "string option"
  page :: int
  limit :: nat
  totalPosts :: nat
  totalPages :: nat
  posts :: "post list"

text \<open>What a handler sends: \<^verbatim>\<open>res.json(v)\<close> or \<^verbatim>\<open>res.status(n).json({error: msg})\<close>.\<close>

datatype 'a response = Ok200 'a | Status404 string | Status500 string

subsection \<open>The JavaScript library operations the handlers call\<close>

text \<open>
  \<^verbatim>\<open>Array.prototype.slice(start, end)\<close> on integer arguments: a negative index counts
  from the end of the array, both indices are clamped to the array, and an empty range
  gives the empty array.
\<close>

definition slice :: "'a list \<Rightarrow> int \<Rightarrow> int \<Rightarrow> 'a list" where
  "slice xs startIndex endIndex =
     (let len = int (length xs);
          k = (if startIndex < 0 then max (len + startIndex) 0 else min startIndex len);
          final = (if endIndex < 0 then max (len + endIndex) 0 else min endIndex len)
      in take (nat (final - k)) (drop (nat k) xs))"

text \<open>
  \<^verbatim>\<open>[...new Set(xs)]\<close>: a \<^verbatim>\<open>Set\<close> keeps its elements in insertion order and ignores the
  insertion of an element it already holds.
\<close>

definition Set_add :: "'a list \<Rightarrow> 'a \<Rightarrow> 'a list" where
  "Set_add s x = (if x \<in> set s then s else s @ [x])"

definition new_Set :: "'a list \<Rightarrow> 'a list" where
  "new_Set xs = foldl Set_add [] xs"

text \<open>
  \<^verbatim>\<open>Math.ceil(n / limit)\<close> for an array length \<open>n\<close>.
\<close>

definition Math_ceil_div :: "nat \<Rightarrow> nat \<Rightarrow> nat" where
  "Math_ceil_div n d = nat \<lceil>real n / real d\<rceil>"

text \<open>
  \<^verbatim>\<open>JSON.stringify\<close> of a string (QuoteJSONString of ECMAScript): the string between
  double quotes, with the double quote, the backslash and the control characters below
  U+0020 escaped.
\<close>

definition hex_digit :: "nat \<Rightarrow> char" where
  "hex_digit n = (if n < 10 then char_of (48 + n) else char_of (87 + n))"

definition quote_char :: "char \<Rightarrow> string" where
  "quote_char c =
     (if c = CHR 0x08 then [CHR 0x5C, CHR ''b'']
      else if c = CHR 0x09 then [CHR 0x5C, CHR ''t'']
      else if c = CHR 0x0A then [CHR 0x5C, CHR ''n'']
      else if c = CHR 0x0C then [CHR 0x5C, CHR ''f'']
      else if c = CHR 0x0D then [CHR 0x5C, CHR ''r'']
      else if c = CHR 0x22 then [CHR 0x5C, CHR 0x22]
      else if c = CHR 0x5C then [CHR 0x5C, CHR 0x5C]
      else if (of_char c :: nat) < 32
        then [CHR 0x5C, CHR ''u'', CHR ''0'', CHR ''0'',
              hex_digit (of_char c div 16), hex_digit (of_char c mod 16)]
      else [c])"

definition JSON_stringify :: "string \<Rightarrow> string" where
  "JSON_stringify s = [CHR 0x22] @ concat (map quote_char s) @ [CHR 0x22]"

subsection \<open>GET /categories\<close>

text \<open>\<^verbatim>\<open>post.category || "Uncategorized"\<close>: an absent and an empty string are both falsy.\<close>

definition category_or_default :: "post \<Rightarrow> string" where
  "category_or_default p =
     (case category p of
        None \<Rightarrow> ''Uncategorized''
      | Some c \<Rightarrow> if c = [] then ''Uncategorized'' else c)"

definition GetAllCategories :: "post list \<Rightarrow> string list response" where
  "GetAllCategories store = Ok200 (new_Set (map category_or_default store))"

subsection \<open>GET /posts/page/:page and GET /posts/category/:category/page/:page\<close>

text \<open>
  The array \<^verbatim>\<open>posts\<close> holds references to objects, and \<^verbatim>\<open>slice\<close> and \<^verbatim>\<open>filter\<close> return
  new arrays of the same references. A reference is the position of the object in
  \<^verbatim>\<open>posts\<close>, and the heap of post objects is the list at those positions.
  \<^verbatim>\<open>delete post.html; return post\<close> updates the object behind the reference and gives
  the reference back, so a handler returns the body it sends and the heap it leaves.

  A route parameter is a non-empty string, so the default of \<^verbatim>\<open>req.params.page || 1\<close>
  never applies, and \<^verbatim>\<open>(page - 1) * limit\<close> takes the parameter as a number: \<open>pg\<close> is
  that number, for a parameter that denotes an integer. Nothing in the \<^verbatim>\<open>try\<close> blocks
  throws on a dataset of the shape above, so no handler reaches its status 500 branch.
\<close>

definition delete_html :: "post \<Rightarrow> post" where
  "delete_html p = p\<lparr>html := None\<rparr>"

definition delete_html_at :: "post list \<Rightarrow> nat \<Rightarrow> post list" where
  "delete_html_at heap r = heap[r := delete_html (heap ! r)]"

definition GetPaginatedPosts :: "post list \<Rightarrow> int \<Rightarrow> page_body response \<times> post list" where
  "GetPaginatedPosts store pg =
     (let lim = 20;
          startIndex = (pg - 1) * int lim;
          endIndex = startIndex + int lim;
          refs = slice [0..<length store] startIndex endIndex;
          heap = foldl delete_html_at store refs
      in (Ok200 \<lparr>req_category = None, page = pg, limit = lim,
                 totalPosts = length store,
                 totalPages = Math_ceil_div (length store) lim,
                 posts = map (\<lambda>r. heap ! r) refs\<rparr>,
          heap))"

definition GetPaginatedPostsByCategory ::
    "post list \<Rightarrow> string \<Rightarrow> int \<Rightarrow> page_body response \<times> post list" where
  "GetPaginatedPostsByCategory store cat pg =
     (let lim = 20;
          filteredPosts = filter (\<lambda>r. category (store ! r) = Some cat) [0..<length store];
          startIndex = (pg - 1) * int lim;
          endIndex = startIndex + int lim;
          refs = slice filteredPosts startIndex endIndex;
          heap = foldl delete_html_at store refs
      in (Ok200 \<lparr>req_category = Some cat, page = pg, limit = lim,
                 totalPosts = length filteredPosts,
                 totalPages = Math_ceil_div (length filteredPosts) lim,
                 posts = map (\<lambda>r. heap ! r) refs\<rparr>,
          heap))"

subsection \<open>GET /posts/:id\<close>

text \<open>
  \<^verbatim>\<open>posts.find\<close> gives the first post whose id is the parameter; the body sent is
  \<^verbatim>\<open>{...post, html: JSON.stringify(post.html)}\<close>, and \<^verbatim>\<open>JSON.stringify(undefined)\<close> is
  \<^verbatim>\<open>undefined\<close>, a property \<^verbatim>\<open>res.json\<close> leaves out.
\<close>

text \<open>
  The lookup on its own, \<^verbatim>\<open>const post = posts.find((p) => p.id === req.params.id)\<close>:
  the value the handler holds in \<^verbatim>\<open>post\<close> before it checks it and builds the body it
  sends (\<^verbatim>\<open>undefined\<close> is \<open>None\<close>).
\<close>

definition find_post :: "post list \<Rightarrow> string \<Rightarrow> post option" where
  "find_post store i = find (\<lambda>p. id' p = i) store"

definition GetPostById :: "post list \<Rightarrow> string \<Rightarrow> post response" where
  "GetPostById store i =
     (case find (\<lambda>p. id' p = i) store of
        None \<Rightarrow> Status404 ''Post not found''
      | Some p \<Rightarrow> Ok200 (p\<lparr>html := map_option JSON_stringify (html p)\<rparr>))"

subsection \<open>Requests in sequence\<close>

text \<open>
  The four routes of the application. A request is served on the heap the requests before
  it left, since \<^verbatim>\<open>posts\<close> is one array for the life of the process.
\<close>

datatype request =
    ListCategories
  | Paginate int
  | PaginateByCategory string int
  | GetById string

datatype reply =
    Categories "string list response"
  | Page "page_body response"
  | Post "post response"

fun handle :: "post list \<Rightarrow> request \<Rightarrow> reply \<times> post list" where
  "handle store ListCategories = (Categories (GetAllCategories store), store)"
| "handle store (Paginate pg) =
     (case GetPaginatedPosts store pg of (r, heap) \<Rightarrow> (Page r, heap))"
| "handle store (PaginateByCategory c pg) =
     (case GetPaginatedPostsByCategory store c pg of (r, heap) \<Rightarrow> (Page r, heap))"
| "handle store (GetById i) = (Post (GetPostById store i), store)"

fun serve :: "post list \<Rightarrow> request list \<Rightarrow> reply list \<times> post list" where
  "serve store [] = ([], store)"
| "serve store (q # qs) =
     (case handle store q of (r, heap) \<Rightarrow>
        (case serve heap qs of (rs, heap') \<Rightarrow> (r # rs, heap')))"

subsection \<open>Order of first occurrence\<close>

text \<open>
  The position at which a value is first seen in a list (the length of the list when it
  never is); the specification's first-seen order is the order of these positions.
\<close>

definition first_index :: "'a list \<Rightarrow> 'a \<Rightarrow> nat" where
  "first_index xs x = length (takeWhile (\<lambda>y. y \<noteq> x) xs)"

subsection \<open>Sample datasets\<close>

definition sample_post :: post where
  "sample_post =
     \<lparr>id' = ''1'', uid = ''post-1'', title = ''First Blog Post'',
      description = ''This is the first blog post.'', category = Some ''Technology'',
      author = ''John Doe'', author_image = ''http://localhost:3000/images/author1.jpg'',
      featured_image = ''http://localhost:3000/images/featured1.jpg'',
      first_publication_date = ''2024-03-08T13:07:03+0000'',
      last_publication_date = ''2024-03-08T13:07:03+0000'',
      html = Some ''<p>hi</p>''\<rparr>"

definition uncategorized_post :: post where
  "uncategorized_post = sample_post\<lparr>id' := ''2'', uid := ''post-2'', category := None\<rparr>"

definition empty_category_post :: post where
  "empty_category_post = sample_post\<lparr>id' := ''3'', uid := ''post-3'', category := Some []\<rparr>"

definition health_post :: post where
  "health_post = sample_post\<lparr>id' := ''4'', uid := ''post-4'', category := Some ''Health''\<rparr>"

definition dataset40 :: "post list" where
  "dataset40 = map (\<lambda>k. sample_post\<lparr>id' := replicate (Suc k) CHR ''i''\<rparr>) [0..<40]"

section \<open>Properties\<close>

subsection \<open>The library operations\<close>

lemma Math_ceil_div_20: "Math_ceil_div n 20 = (n + 19) div 20"
  unfolding Math_ceil_div_def by linarith

lemma slice_map: "slice (map f xs) a b = map f (slice xs a b)"
  by (simp add: slice_def Let_def take_map drop_map)

lemma slice_nonneg:
  assumes "0 \<le> a" and "a \<le> b"
  shows "slice xs a b = take (nat (b - a)) (drop (nat a) xs)"
proof (cases "a \<le> int (length xs)")
  case True
  have "take (nat (min b (int (length xs)) - a)) (drop (nat a) xs) = take (nat (b - a)) (drop (nat a) xs)"
  proof (cases "b \<le> int (length xs)")
    case True
    then show ?thesis by (simp add: min_def)
  next
    case False
    with assms \<open>a \<le> int (length xs)\<close> show ?thesis by (simp add: min_def)
  qed
  with True assms show ?thesis
    by (simp add: slice_def Let_def min_def)
next
  case False
  with assms show ?thesis
    by (simp add: slice_def Let_def min_def)
qed

lemma length_slice_page:
  assumes "1 \<le> pg"
  shows "int (length (slice xs ((pg - 1) * 20) ((pg - 1) * 20 + 20)))
         = min 20 (max 0 (int (length xs) - (pg - 1) * 20))"
  using assms by (simp add: slice_nonneg)

lemma set_slice: "set (slice xs a b) \<subseteq> set xs"
  unfolding slice_def Let_def
  by (meson set_take_subset set_drop_subset subset_trans)

lemma length_foldl_delete [simp]: "length (foldl delete_html_at heap rs) = length heap"
  by (induction rs arbitrary: heap) (simp_all add: delete_html_at_def)

lemma delete_html_idem [simp]: "delete_html (delete_html p) = delete_html p"
  by (simp add: delete_html_def)

lemma nth_delete_html_at:
  "i < length heap \<Longrightarrow>
   delete_html_at heap r ! i = (if i = r then delete_html (heap ! i) else heap ! i)"
  by (simp add: delete_html_at_def nth_list_update)

lemma nth_foldl_delete:
  "i < length heap \<Longrightarrow>
   foldl delete_html_at heap rs ! i = (if i \<in> set rs then delete_html (heap ! i) else heap ! i)"
proof (induction rs arbitrary: heap)
  case Nil
  then show ?case by simp
next
  case (Cons r rs)
  have len: "i < length (delete_html_at heap r)"
    using Cons.prems by (simp add: delete_html_at_def)
  show ?case
    using Cons.IH [OF len] Cons.prems
    by (simp add: nth_delete_html_at)
qed

lemma read_refs_after_delete:
  assumes "\<forall>r \<in> set rs. r < length heap"
  shows "map (\<lambda>r. foldl delete_html_at heap rs ! r) rs = map (\<lambda>r. delete_html (heap ! r)) rs"
  using assms by (simp add: nth_foldl_delete)

lemma map_delete_foldl:
  "map delete_html (foldl delete_html_at heap rs) = map delete_html heap"
  by (rule nth_equalityI) (simp_all add: nth_foldl_delete)

lemma deref_filter:
  "map (\<lambda>r. store ! r) (filter (\<lambda>r. P (store ! r)) [0..<length store]) = filter P store"
proof -
  have "filter P (map (\<lambda>r. store ! r) [0..<length store])
        = map (\<lambda>r. store ! r) (filter (\<lambda>r. P (store ! r)) [0..<length store])"
    by (simp add: filter_map comp_def)
  then show ?thesis by (simp add: map_nth)
qed

subsection \<open>What the paginating handlers send and leave\<close>

lemma refs_in_store: "\<forall>r \<in> set (slice [0..<n] a b). r < n"
  using set_slice [of "[0..<n]" a b] by auto

lemma refs_filter_in_store: "\<forall>r \<in> set (slice (filter Q [0..<n]) a b). r < n"
  using set_slice [of "filter Q [0..<n]" a b] by auto

lemma deref_slice:
  "map (\<lambda>r. store ! r) (slice [0..<length store] a b) = slice store a b"
proof -
  have "map (\<lambda>r. store ! r) (slice [0..<length store] a b)
        = slice (map (\<lambda>r. store ! r) [0..<length store]) a b"
    by (simp add: slice_map)
  then show ?thesis by (simp add: map_nth)
qed

lemma deref_slice_filter:
  "map (\<lambda>r. store ! r) (slice (filter (\<lambda>r. P (store ! r)) [0..<length store]) a b)
   = slice (filter P store) a b"
proof -
  have "map (\<lambda>r. store ! r) (slice (filter (\<lambda>r. P (store ! r)) [0..<length store]) a b)
        = slice (map (\<lambda>r. store ! r) (filter (\<lambda>r. P (store ! r)) [0..<length store])) a b"
    by (simp add: slice_map)
  then show ?thesis by (simp add: deref_filter)
qed

lemma sent_posts:
  assumes "\<forall>r \<in> set rs. r < length store"
  shows "map (\<lambda>r. foldl delete_html_at store rs ! r) rs
         = map delete_html (map (\<lambda>r. store ! r) rs)"
  using read_refs_after_delete [OF assms] by (simp add: comp_def)

lemma GetPaginatedPosts_body:
  "fst (GetPaginatedPosts store pg) =
     Ok200 \<lparr>req_category = None, page = pg, limit = 20, totalPosts = length store,
            totalPages = Math_ceil_div (length store) 20,
            posts = map delete_html (slice store ((pg - 1) * 20) ((pg - 1) * 20 + 20))\<rparr>"
proof -
  let ?refs = "slice [0..<length store] ((pg - 1) * 20) ((pg - 1) * 20 + 20)"
  have "map (\<lambda>r. foldl delete_html_at store ?refs ! r) ?refs
        = map delete_html (map (\<lambda>r. store ! r) ?refs)"
    by (rule sent_posts [OF refs_in_store])
  also have "\<dots> = map delete_html (slice store ((pg - 1) * 20) ((pg - 1) * 20 + 20))"
    using deref_slice [of store] by simp
  finally show ?thesis
    by (simp add: GetPaginatedPosts_def Let_def)
qed

lemma GetPaginatedPosts_heap:
  "snd (GetPaginatedPosts store pg) =
     foldl delete_html_at store (slice [0..<length store] ((pg - 1) * 20) ((pg - 1) * 20 + 20))"
  by (simp add: GetPaginatedPosts_def Let_def)

lemma GetPaginatedPostsByCategory_body:
  "fst (GetPaginatedPostsByCategory store c pg) =
     Ok200 \<lparr>req_category = Some c, page = pg, limit = 20,
            totalPosts = length (filter (\<lambda>p. category p = Some c) store),
            totalPages = Math_ceil_div (length (filter (\<lambda>p. category p = Some c) store)) 20,
            posts = map delete_html
                      (slice (filter (\<lambda>p. category p = Some c) store)
                         ((pg - 1) * 20) ((pg - 1) * 20 + 20))\<rparr>"
proof -
  have len: "length (filter (\<lambda>r. category (store ! r) = Some c) [0..<length store])
             = length (filter (\<lambda>p. category p = Some c) store)"
    using arg_cong [OF deref_filter [of store "\<lambda>p. category p = Some c"], of length]
    by simp
  let ?refs = "slice (filter (\<lambda>r. category (store ! r) = Some c) [0..<length store])
                 ((pg - 1) * 20) ((pg - 1) * 20 + 20)"
  have "map (\<lambda>r. foldl delete_html_at store ?refs ! r) ?refs
        = map delete_html (map (\<lambda>r. store ! r) ?refs)"
    by (rule sent_posts [OF refs_filter_in_store])
  also have "\<dots> = map delete_html
                      (slice (filter (\<lambda>p. category p = Some c) store)
                         ((pg - 1) * 20) ((pg - 1) * 20 + 20))"
    using deref_slice_filter [of store "\<lambda>p. category p = Some c"] by simp
  finally show ?thesis
    by (simp add: GetPaginatedPostsByCategory_def Let_def len)
qed

subsection \<open>Lookup by id\<close>

lemma find_None_iff_no_id: "(find (\<lambda>p. id' p = i) store = None) = (\<forall>p \<in> set store. id' p \<noteq> i)"
  by (auto simp: find_None_iff)

text \<open>
  C9: GetById answers 404 exactly when no stored record has the queried id, and a record
  it returns carries the queried id.
\<close>

theorem GetPostById_NotFound_iff:
  "((\<exists>msg. GetPostById store i = Status404 msg) \<longleftrightarrow> (\<forall>p \<in> set store. id' p \<noteq> i))
   \<and> (\<forall>r. GetPostById store i = Ok200 r \<longrightarrow> id' r = i)
   \<and> ((\<exists>p \<in> set store. id' p = i) \<longrightarrow> (\<exists>r. GetPostById store i = Ok200 r))"
proof (cases "find (\<lambda>p. id' p = i) store")
  case None
  then have "\<forall>p \<in> set store. id' p \<noteq> i"
    by (simp add: find_None_iff_no_id)
  with None show ?thesis
    by (simp add: GetPostById_def)
next
  case (Some p)
  then have "id' p = i" and "p \<in> set store"
    by (auto simp: find_Some_iff)
  with Some show ?thesis
    by (auto simp: GetPostById_def)
qed

theorem GetPostById_NotFound_iff_witness:
  "(\<exists>msg. GetPostById [sample_post, uncategorized_post] ''7'' = Status404 msg)
   \<and> (\<exists>r. GetPostById [sample_post, uncategorized_post] ''2'' = Ok200 r \<and> id' r = ''2'')"
proof -
  have absent: "\<forall>p \<in> set [sample_post, uncategorized_post]. id' p \<noteq> ''7''"
    by (simp add: sample_post_def uncategorized_post_def)
  have present: "\<exists>p \<in> set [sample_post, uncategorized_post]. id' p = ''2''"
    by (simp add: sample_post_def uncategorized_post_def)
  from absent present
    GetPostById_NotFound_iff [of "[sample_post, uncategorized_post]" "''7''"]
    GetPostById_NotFound_iff [of "[sample_post, uncategorized_post]" "''2''"]
  show ?thesis by blast
qed

subsection \<open>The posts of a page\<close>

text \<open>
  C3: every post in the \<open>posts\<close> array sent by either paginating route is a record of the
  store as it was when the request arrived, with the \<open>html\<close> property removed and every
  other property as stored: the array is the requested slice of the store (of the posts of
  the category), each record without \<open>html\<close>.
\<close>

theorem paginated_posts_lack_only_html:
  "(\<exists>b heap. GetPaginatedPosts store pg = (Ok200 b, heap)
      \<and> posts b = map (\<lambda>p. p\<lparr>html := None\<rparr>) (slice store ((pg - 1) * 20) ((pg - 1) * 20 + 20))
      \<and> (\<forall>q \<in> set (posts b). html q = None \<and> (\<exists>p \<in> set store. q = p\<lparr>html := None\<rparr>)))
   \<and> (\<exists>b heap. GetPaginatedPostsByCategory store c pg = (Ok200 b, heap)
      \<and> posts b = map (\<lambda>p. p\<lparr>html := None\<rparr>)
                     (slice (filter (\<lambda>p. category p = Some c) store)
                        ((pg - 1) * 20) ((pg - 1) * 20 + 20))
      \<and> (\<forall>q \<in> set (posts b). html q = None \<and> (\<exists>p \<in> set store. q = p\<lparr>html := None\<rparr>)))"
proof (rule conjI)
  let ?a = "(pg - 1) * 20"
  have strip: "delete_html = (\<lambda>p. p\<lparr>html := None\<rparr>)"
    by (rule ext) (simp add: delete_html_def)
  have mem: "\<forall>q \<in> set (map (\<lambda>p. p\<lparr>html := None\<rparr>) (slice xs ?a (?a + 20))).
               html q = None \<and> (\<exists>p \<in> set xs. q = p\<lparr>html := None\<rparr>)" for xs :: "post list"
    using set_slice [of xs ?a "?a + 20"] by auto
  obtain r h where r: "GetPaginatedPosts store pg = (r, h)"
    by (cases "GetPaginatedPosts store pg")
  with GetPaginatedPosts_body [of store pg] mem [of store]
  show "\<exists>b heap. GetPaginatedPosts store pg = (Ok200 b, heap)
      \<and> posts b = map (\<lambda>p. p\<lparr>html := None\<rparr>) (slice store ?a (?a + 20))
      \<and> (\<forall>q \<in> set (posts b). html q = None \<and> (\<exists>p \<in> set store. q = p\<lparr>html := None\<rparr>))"
    by (simp add: strip)
  obtain r' h' where r': "GetPaginatedPostsByCategory store c pg = (r', h')"
    by (cases "GetPaginatedPostsByCategory store c pg")
  have "\<forall>q \<in> set (map (\<lambda>p. p\<lparr>html := None\<rparr>) (slice (filter (\<lambda>p. category p = Some c) store) ?a (?a + 20))).
               html q = None \<and> (\<exists>p \<in> set store. q = p\<lparr>html := None\<rparr>)"
    using mem [of "filter (\<lambda>p. category p = Some c) store"] by auto
  with r' GetPaginatedPostsByCategory_body [of store c pg]
  show "\<exists>b heap. GetPaginatedPostsByCategory store c pg = (Ok200 b, heap)
      \<and> posts b = map (\<lambda>p. p\<lparr>html := None\<rparr>)
                     (slice (filter (\<lambda>p. category p = Some c) store) ?a (?a + 20))
      \<and> (\<forall>q \<in> set (posts b). html q = None \<and> (\<exists>p \<in> set store. q = p\<lparr>html := None\<rparr>))"
    by (simp add: strip)
qed

theorem paginated_posts_lack_only_html_witness:
  "(\<exists>b heap. GetPaginatedPosts [sample_post, uncategorized_post] 1 = (Ok200 b, heap)
      \<and> posts b = [sample_post\<lparr>html := None\<rparr>, uncategorized_post\<lparr>html := None\<rparr>])
   \<and> (\<exists>b heap. GetPaginatedPostsByCategory [sample_post, uncategorized_post] ''Technology'' 1
                    = (Ok200 b, heap)
      \<and> posts b = [sample_post\<lparr>html := None\<rparr>])"
proof -
  have s1: "slice [sample_post, uncategorized_post] ((1 - 1) * 20) ((1 - 1) * 20 + 20)
            = [sample_post, uncategorized_post]"
    by (simp add: slice_def)
  have s2: "slice (filter (\<lambda>p. category p = Some ''Technology'') [sample_post, uncategorized_post])
              ((1 - 1) * 20) ((1 - 1) * 20 + 20) = [sample_post]"
    by (simp add: slice_def sample_post_def uncategorized_post_def)
  from paginated_posts_lack_only_html [of "[sample_post, uncategorized_post]" 1 "''Technology''"]
  show ?thesis
    unfolding s1 s2 by auto
qed

subsection \<open>Page sizes and totals\<close>

text \<open>
  C4: for every page number from 1 on, the number of posts on the page is
  \<open>min limit (max 0 (totalPosts - (page - 1) * limit))\<close>, where \<open>limit\<close> is 20 and
  \<open>totalPosts\<close> is the size of the whole collection.
\<close>

theorem length_paginated_posts:
  assumes "1 \<le> pg"
  shows "\<exists>b heap. GetPaginatedPosts store pg = (Ok200 b, heap)
           \<and> limit b = 20 \<and> totalPosts b = length store
           \<and> int (length (posts b))
               = min (int (limit b)) (max 0 (int (totalPosts b) - (pg - 1) * int (limit b)))"
proof -
  obtain r h where r: "GetPaginatedPosts store pg = (r, h)"
    by (cases "GetPaginatedPosts store pg")
  with GetPaginatedPosts_body [of store pg] length_slice_page [OF assms, of store]
  show ?thesis by simp
qed

theorem length_paginated_posts_witness:
  "(1::int) \<le> 2
   \<and> (\<exists>b heap. GetPaginatedPosts dataset40 2 = (Ok200 b, heap) \<and> length (posts b) = 20)
   \<and> (1::int) \<le> 3
   \<and> (\<exists>b heap. GetPaginatedPosts dataset40 3 = (Ok200 b, heap) \<and> length (posts b) = 0)"
proof -
  have len: "length dataset40 = 40"
    by (simp add: dataset40_def)
  from length_paginated_posts [of 2 dataset40] length_paginated_posts [of 3 dataset40]
  show ?thesis
    by (auto simp: len)
qed

text \<open>
  C6: whatever the page, the response reports the size of the whole collection as
  \<open>totalPosts\<close> and \<open>\<lceil>totalPosts / limit\<rceil>\<close> with limit 20 as \<open>totalPages\<close>; on a
  collection of 40 posts, page 3 has no posts and \<open>totalPages\<close> is still 2.
\<close>

theorem paginated_totals:
  "(\<exists>b heap. GetPaginatedPosts store pg = (Ok200 b, heap)
      \<and> limit b = 20 \<and> totalPosts b = length store
      \<and> totalPages b = nat \<lceil>real (totalPosts b) / real (limit b)\<rceil>
      \<and> totalPages b = (length store + 19) div 20)
   \<and> (length store = 40 \<longrightarrow>
        (\<exists>b heap. GetPaginatedPosts store 3 = (Ok200 b, heap) \<and> posts b = [] \<and> totalPages b = 2))"
proof (rule conjI)
  obtain r h where r: "GetPaginatedPosts store pg = (r, h)"
    by (cases "GetPaginatedPosts store pg")
  with GetPaginatedPosts_body [of store pg]
  show "\<exists>b heap. GetPaginatedPosts store pg = (Ok200 b, heap)
      \<and> limit b = 20 \<and> totalPosts b = length store
      \<and> totalPages b = nat \<lceil>real (totalPosts b) / real (limit b)\<rceil>
      \<and> totalPages b = (length store + 19) div 20"
    using Math_ceil_div_20 [of "length store"]
    by (simp add: Math_ceil_div_def)
  show "length store = 40 \<longrightarrow>
        (\<exists>b heap. GetPaginatedPosts store 3 = (Ok200 b, heap) \<and> posts b = [] \<and> totalPages b = 2)"
  proof
    assume len: "length store = 40"
    obtain r3 h3 where r3: "GetPaginatedPosts store 3 = (r3, h3)"
      by (cases "GetPaginatedPosts store 3")
    have "slice store ((3 - 1) * 20) ((3 - 1) * 20 + 20) = []"
      using len by (simp add: slice_def)
    with r3 GetPaginatedPosts_body [of store 3] len
    show "\<exists>b heap. GetPaginatedPosts store 3 = (Ok200 b, heap) \<and> posts b = [] \<and> totalPages b = 2"
      by (simp add: Math_ceil_div_20)
  qed
qed

theorem paginated_totals_witness:
  "length dataset40 = 40
   \<and> (\<exists>b heap. GetPaginatedPosts dataset40 3 = (Ok200 b, heap) \<and> posts b = [] \<and> totalPages b = 2)"
proof -
  have len: "length dataset40 = 40"
    by (simp add: dataset40_def)
  with paginated_totals [of dataset40 3] show ?thesis
    by blast
qed

subsection \<open>Pages of a category\<close>

text \<open>
  C7: for every category string and page, the response is computed over the posts whose
  \<open>category\<close> is exactly that string: \<open>totalPosts\<close> is their number, \<open>totalPages\<close> is
  \<open>\<lceil>totalPosts / 20\<rceil>\<close>, \<open>posts\<close> is the slice \<open>[(page - 1) * 20, page * 20)\<close> of them
  (for a page from 1 on: 20 posts after the first \<open>(page - 1) * 20\<close>), and the response
  carries the category asked for.
\<close>

theorem paginated_by_category:
  "\<exists>b heap. GetPaginatedPostsByCategory store c pg = (Ok200 b, heap)
     \<and> req_category b = Some c
     \<and> limit b = 20
     \<and> totalPosts b = length (filter (\<lambda>p. category p = Some c) store)
     \<and> totalPages b = nat \<lceil>real (totalPosts b) / real (limit b)\<rceil>
     \<and> posts b = map (\<lambda>p. p\<lparr>html := None\<rparr>)
                    (slice (filter (\<lambda>p. category p = Some c) store)
                       ((pg - 1) * int (limit b)) (pg * int (limit b)))
     \<and> (1 \<le> pg \<longrightarrow>
          posts b = map (\<lambda>p. p\<lparr>html := None\<rparr>)
                      (take (limit b)
                         (drop (nat (pg - 1) * limit b)
                            (filter (\<lambda>p. category p = Some c) store))))"
proof -
  let ?f = "filter (\<lambda>p. category p = Some c) store"
  have strip: "delete_html = (\<lambda>p. p\<lparr>html := None\<rparr>)"
    by (rule ext) (simp add: delete_html_def)
  obtain r h where r: "GetPaginatedPostsByCategory store c pg = (r, h)"
    by (cases "GetPaginatedPostsByCategory store c pg")
  have e: "(pg - 1) * 20 + 20 = pg * 20"
    by simp
  have pos: "1 \<le> pg \<longrightarrow> slice ?f ((pg - 1) * 20) (pg * 20) = take 20 (drop (nat (pg - 1) * 20) ?f)"
  proof
    assume "1 \<le> pg"
    then have "slice ?f ((pg - 1) * 20) (pg * 20)
               = take (nat (pg * 20 - (pg - 1) * 20)) (drop (nat ((pg - 1) * 20)) ?f)"
      by (intro slice_nonneg) simp_all
    moreover have "nat ((pg - 1) * 20) = nat (pg - 1) * 20"
      using \<open>1 \<le> pg\<close> by (simp add: nat_mult_distrib)
    ultimately show "slice ?f ((pg - 1) * 20) (pg * 20) = take 20 (drop (nat (pg - 1) * 20) ?f)"
      by simp
  qed
  from r GetPaginatedPostsByCategory_body [of store c pg] pos
  show ?thesis
    unfolding e by (simp add: strip Math_ceil_div_def)
qed

theorem paginated_by_category_witness:
  "(1::int) \<le> 1
   \<and> (\<exists>b heap. GetPaginatedPostsByCategory
                   [health_post, sample_post, sample_post\<lparr>category := Some ''technology''\<rparr>]
                   ''Technology'' 1 = (Ok200 b, heap)
        \<and> req_category b = Some ''Technology'' \<and> totalPosts b = 1 \<and> totalPages b = 1
        \<and> posts b = [sample_post\<lparr>html := None\<rparr>])"
proof -
  let ?store = "[health_post, sample_post, sample_post\<lparr>category := Some ''technology''\<rparr>]"
  have f: "filter (\<lambda>p. category p = Some ''Technology'') ?store = [sample_post]"
    by (simp add: health_post_def sample_post_def)
  have c: "nat \<lceil>(1::real) / 20\<rceil> = Suc 0"
    using Math_ceil_div_20 [of 1] by (simp add: Math_ceil_div_def)
  have s: "slice [sample_post] 0 20 = [sample_post]"
    by (simp add: slice_def)
  from paginated_by_category [of ?store "''Technology''" 1]
  show ?thesis
    unfolding f by (auto simp: c s)
qed

subsection \<open>Categories\<close>

lemma in_new_Set_aux: "set (foldl Set_add acc xs) = set acc \<union> set xs"
  by (induction xs arbitrary: acc) (auto simp: Set_add_def)

lemma set_new_Set: "set (new_Set xs) = set xs"
  by (simp add: new_Set_def in_new_Set_aux)

lemma new_Set_Nil [simp]: "new_Set [] = []"
  by (simp add: new_Set_def)

lemma new_Set_snoc: "new_Set (xs @ [x]) = (if x \<in> set xs then new_Set xs else new_Set xs @ [x])"
  using set_new_Set [of xs] by (simp add: new_Set_def Set_add_def)

lemma distinct_new_Set: "distinct (new_Set xs)"
  by (induction xs rule: rev_induct) (simp_all add: new_Set_snoc set_new_Set)

lemma first_index_less: "x \<in> set xs \<Longrightarrow> first_index xs x < length xs"
  by (induction xs) (auto simp: first_index_def)

lemma first_index_snoc_old: "y \<in> set xs \<Longrightarrow> first_index (xs @ [x]) y = first_index xs y"
  by (simp add: first_index_def)

lemma first_index_snoc_new:
  assumes "x \<notin> set xs"
  shows "first_index (xs @ [x]) x = length xs"
proof -
  have "takeWhile (\<lambda>y. y \<noteq> x) (xs @ [x]) = xs @ takeWhile (\<lambda>y. y \<noteq> x) [x]"
    using assms by (intro takeWhile_append2) auto
  then show ?thesis by (simp add: first_index_def)
qed

lemma first_seen_order: "sorted_wrt (<) (map (first_index xs) (new_Set xs))"
proof (induction xs rule: rev_induct)
  case Nil
  then show ?case by simp
next
  case (snoc x xs)
  have old: "map (first_index (xs @ [x])) (new_Set xs) = map (first_index xs) (new_Set xs)"
    by (rule map_cong) (simp_all add: set_new_Set first_index_snoc_old)
  show ?case
  proof (cases "x \<in> set xs")
    case True
    then have "new_Set (xs @ [x]) = new_Set xs"
      by (simp add: new_Set_snoc)
    with snoc.IH show ?thesis
      by (simp only: old)
  next
    case False
    then have new: "new_Set (xs @ [x]) = new_Set xs @ [x]"
      by (simp add: new_Set_snoc)
    have "\<forall>i \<in> set (map (first_index xs) (new_Set xs)). i < length xs"
      by (auto simp: set_new_Set first_index_less)
    with snoc.IH show ?thesis
      unfolding new map_append old
      by (simp add: sorted_wrt_append first_index_snoc_new [OF False])
  qed
qed

lemma category_names:
  "category_or_default ` set store =
     {c. c \<noteq> [] \<and> (\<exists>p \<in> set store. category p = Some c)}
     \<union> (if \<exists>p \<in> set store. category p = None \<or> category p = Some []
        then {''Uncategorized''} else {})"
  (is "?L = ?R")
proof (rule set_eqI)
  fix c
  show "c \<in> ?L \<longleftrightarrow> c \<in> ?R"
  proof
    assume "c \<in> ?L"
    then obtain p where p: "p \<in> set store" and c: "c = category_or_default p"
      by auto
    show "c \<in> ?R"
    proof (cases "category p = None \<or> category p = Some []")
      case True
      with c have "c = ''Uncategorized''"
        by (auto simp: category_or_default_def)
      with p True show ?thesis by auto
    next
      case False
      then obtain d where "category p = Some d" and "d \<noteq> []"
        by (cases "category p") auto
      with p c show ?thesis
        by (auto simp: category_or_default_def)
    qed
  next
    assume "c \<in> ?R"
    then consider
        p where "p \<in> set store" "category p = Some c" "c \<noteq> []"
      | p where "p \<in> set store" "category p = None \<or> category p = Some []" "c = ''Uncategorized''"
      by (auto split: if_splits)
    then show "c \<in> ?L"
    proof cases
      case 1
      then have "category_or_default p = c"
        by (simp add: category_or_default_def)
      moreover from 1 have "category_or_default p \<in> ?L"
        by (intro imageI)
      ultimately show ?thesis by simp
    next
      case 2
      then have "category_or_default p = c"
        by (auto simp: category_or_default_def)
      moreover from 2 have "category_or_default p \<in> ?L"
        by (intro imageI)
      ultimately show ?thesis by simp
    qed
  qed
qed

lemma count_list_distinct: "distinct xs \<Longrightarrow> x \<in> set xs \<Longrightarrow> count_list xs x = 1"
  by (induction xs) auto

text \<open>
  C8: the category list has no duplicates and holds the names in the order in which they
  are first seen in the collection, with \<open>Uncategorized\<close> standing for every post whose
  category is missing or empty; when there is such a post, \<open>Uncategorized\<close> is listed
  exactly once, however many there are.
\<close>

theorem categories_unique_first_seen:
  "\<exists>cs. GetAllCategories store = Ok200 cs
     \<and> distinct cs
     \<and> set cs = {c. c \<noteq> [] \<and> (\<exists>p \<in> set store. category p = Some c)}
                \<union> (if \<exists>p \<in> set store. category p = None \<or> category p = Some []
                   then {''Uncategorized''} else {})
     \<and> sorted_wrt (<)
          (map (first_index
                  (map (\<lambda>p. if category p = None \<or> category p = Some []
                            then ''Uncategorized'' else the (category p)) store)) cs)
     \<and> ((\<exists>p \<in> set store. category p = None \<or> category p = Some [])
          \<longrightarrow> count_list cs ''Uncategorized'' = 1)"
proof -
  let ?names = "map category_or_default store"
  have names: "?names = map (\<lambda>p. if category p = None \<or> category p = Some []
                            then ''Uncategorized'' else the (category p)) store"
    by (rule map_cong) (auto simp: category_or_default_def split: option.splits)
  have s: "set (new_Set ?names) = {c. c \<noteq> [] \<and> (\<exists>p \<in> set store. category p = Some c)}
                \<union> (if \<exists>p \<in> set store. category p = None \<or> category p = Some []
                   then {''Uncategorized''} else {})"
    using category_names [of store] by (simp add: set_new_Set)
  have once: "count_list (new_Set ?names) ''Uncategorized'' = 1"
    if "\<exists>p \<in> set store. category p = None \<or> category p = Some []"
  proof -
    from that s have "''Uncategorized'' \<in> set (new_Set ?names)"
      by simp
    with distinct_new_Set [of ?names] show ?thesis
      by (rule count_list_distinct)
  qed
  show ?thesis
  proof (intro exI conjI)
    show "GetAllCategories store = Ok200 (new_Set ?names)"
      by (simp add: GetAllCategories_def)
    show "distinct (new_Set ?names)"
      by (rule distinct_new_Set)
    show "set (new_Set ?names) = {c. c \<noteq> [] \<and> (\<exists>p \<in> set store. category p = Some c)}
                \<union> (if \<exists>p \<in> set store. category p = None \<or> category p = Some []
                   then {''Uncategorized''} else {})"
      by (rule s)
    show "sorted_wrt (<)
          (map (first_index
                  (map (\<lambda>p. if category p = None \<or> category p = Some []
                            then ''Uncategorized'' else the (category p)) store))
             (new_Set ?names))"
      using first_seen_order [of ?names] by (simp only: names)
    show "(\<exists>p \<in> set store. category p = None \<or> category p = Some [])
          \<longrightarrow> count_list (new_Set ?names) ''Uncategorized'' = 1"
      using once by (rule impI)
  qed
qed

theorem categories_unique_first_seen_witness:
  "(\<exists>p \<in> set [health_post, uncategorized_post, sample_post, empty_category_post, health_post].
       category p = None \<or> category p = Some [])
   \<and> GetAllCategories [health_post, uncategorized_post, sample_post, empty_category_post, health_post]
       = Ok200 [''Health'', ''Uncategorized'', ''Technology'']
   \<and> count_list [''Health'', ''Uncategorized'', ''Technology''] ''Uncategorized'' = 1"
proof -
  let ?store = "[health_post, uncategorized_post, sample_post, empty_category_post, health_post]"
  have h: "\<exists>p \<in> set ?store. category p = None \<or> category p = Some []"
    by (simp add: uncategorized_post_def)
  have v: "GetAllCategories ?store = Ok200 [''Health'', ''Uncategorized'', ''Technology'']"
    by (simp add: GetAllCategories_def new_Set_def Set_add_def category_or_default_def
        health_post_def uncategorized_post_def sample_post_def empty_category_post_def)
  from categories_unique_first_seen [of ?store] h v
  show ?thesis by auto
qed

text \<open>
  C10: the default name is given by the category list only. The category filter compares
  the stored \<open>category\<close> with the string asked for, so a page of \<open>Uncategorized\<close> holds
  only posts stored under that very name, never a post whose category is missing or
  empty; when no post is stored under it, \<open>totalPosts\<close> is 0 and the page is empty, even
  where the category list names \<open>Uncategorized\<close>.
\<close>

theorem uncategorized_default_not_in_filter:
  "(\<exists>b heap. GetPaginatedPostsByCategory store ''Uncategorized'' pg = (Ok200 b, heap)
      \<and> (\<forall>q \<in> set (posts b). category q = Some ''Uncategorized'')
      \<and> ((\<forall>p \<in> set store. category p \<noteq> Some ''Uncategorized'')
           \<longrightarrow> totalPosts b = 0 \<and> posts b = []))
   \<and> ((\<exists>p \<in> set store. category p = None \<or> category p = Some [])
        \<longrightarrow> (\<exists>cs. GetAllCategories store = Ok200 cs \<and> ''Uncategorized'' \<in> set cs))"
proof (rule conjI)
  let ?f = "filter (\<lambda>p. category p = Some ''Uncategorized'') store"
  let ?a = "(pg - 1) * 20"
  obtain r h where r: "GetPaginatedPostsByCategory store ''Uncategorized'' pg = (r, h)"
    by (cases "GetPaginatedPostsByCategory store ''Uncategorized'' pg")
  have kept: "\<forall>q \<in> set (map delete_html (slice ?f ?a (?a + 20))). category q = Some ''Uncategorized''"
    using set_slice [of ?f ?a "?a + 20"] by (auto simp: delete_html_def)
  have none: "?f = []" if "\<forall>p \<in> set store. category p \<noteq> Some ''Uncategorized''"
    using that by (simp add: filter_empty_conv)
  have empty: "slice [] ?a (?a + 20) = ([] :: post list)"
    by (simp add: slice_def)
  let ?b = "\<lparr>req_category = Some ''Uncategorized'', page = pg, limit = 20,
                 totalPosts = length ?f, totalPages = Math_ceil_div (length ?f) 20,
                 posts = map delete_html (slice ?f ?a (?a + 20))\<rparr>"
  from r GetPaginatedPostsByCategory_body [of store "''Uncategorized''" pg]
  have r_eq: "r = Ok200 ?b"
    by simp
  show "\<exists>b heap. GetPaginatedPostsByCategory store ''Uncategorized'' pg = (Ok200 b, heap)
      \<and> (\<forall>q \<in> set (posts b). category q = Some ''Uncategorized'')
      \<and> ((\<forall>p \<in> set store. category p \<noteq> Some ''Uncategorized'')
           \<longrightarrow> totalPosts b = 0 \<and> posts b = [])"
  proof (intro exI conjI impI)
    show "GetPaginatedPostsByCategory store ''Uncategorized'' pg = (Ok200 ?b, h)"
      using r r_eq by simp
    show "\<forall>q \<in> set (posts ?b). category q = Some ''Uncategorized''"
      using kept by simp
  next
    assume "\<forall>p \<in> set store. category p \<noteq> Some ''Uncategorized''"
    then have "?f = []" by (rule none)
    then show
      "totalPosts ?b = 0"
      "posts ?b = []"
      using empty by simp_all
  qed
  show "(\<exists>p \<in> set store. category p = None \<or> category p = Some [])
        \<longrightarrow> (\<exists>cs. GetAllCategories store = Ok200 cs \<and> ''Uncategorized'' \<in> set cs)"
  proof
    assume "\<exists>p \<in> set store. category p = None \<or> category p = Some []"
    then have "''Uncategorized'' \<in> category_or_default ` set store"
      by (simp add: category_names)
    then show "\<exists>cs. GetAllCategories store = Ok200 cs \<and> ''Uncategorized'' \<in> set cs"
      by (simp add: GetAllCategories_def set_new_Set)
  qed
qed

theorem uncategorized_default_not_in_filter_witness:
  "category sample_post \<noteq> Some ''Uncategorized''
   \<and> category uncategorized_post \<noteq> Some ''Uncategorized''
   \<and> category empty_category_post \<noteq> Some ''Uncategorized''
   \<and> (\<exists>p \<in> set [sample_post, uncategorized_post, empty_category_post].
       category p = None \<or> category p = Some [])
   \<and> (\<exists>b heap. GetPaginatedPostsByCategory [sample_post, uncategorized_post, empty_category_post]
                   ''Uncategorized'' 1 = (Ok200 b, heap)
        \<and> totalPosts b = 0 \<and> posts b = [])
   \<and> (\<exists>cs. GetAllCategories [sample_post, uncategorized_post, empty_category_post] = Ok200 cs
         \<and> ''Uncategorized'' \<in> set cs)"
proof -
  let ?store = "[sample_post, uncategorized_post, empty_category_post]"
  have a: "\<forall>p \<in> set ?store. category p \<noteq> Some ''Uncategorized''"
    by (simp add: sample_post_def uncategorized_post_def empty_category_post_def)
  have b: "\<exists>p \<in> set ?store. category p = None \<or> category p = Some []"
    by (simp add: uncategorized_post_def)
  have c: "category sample_post \<noteq> Some ''Uncategorized''"
    "category uncategorized_post \<noteq> Some ''Uncategorized''"
    "category empty_category_post \<noteq> Some ''Uncategorized''"
    by (simp_all add: sample_post_def uncategorized_post_def empty_category_post_def)
  from a b c uncategorized_default_not_in_filter [of ?store 1]
  show ?thesis by blast
qed

subsection \<open>All pages together\<close>

lemma concat_pages_take:
  "concat (map (\<lambda>k. take d (drop (k * d) xs)) [0..<m]) = take (m * d) xs"
proof (induction m)
  case 0
  then show ?case by simp
next
  case (Suc m)
  have "take (Suc m * d) xs = take (m * d) xs @ take d (drop (m * d) xs)"
    using take_add [of "m * d" d xs] by (simp add: add.commute)
  with Suc show ?case by simp
qed

lemma concat_all_pages:
  "concat (map (\<lambda>k. take 20 (drop (k * 20) xs)) [0..<(length xs + 19) div 20]) = xs"
proof -
  have "length xs \<le> (length xs + 19) div 20 * 20"
    by presburger
  then show ?thesis
    by (simp add: concat_pages_take)
qed

lemma slice_page_of_nat:
  "slice xs ((int (Suc k) - 1) * 20) ((int (Suc k) - 1) * 20 + 20) = take 20 (drop (k * 20) xs)"
proof -
  have "slice xs (int k * 20) (int k * 20 + 20)
        = take (nat (int k * 20 + 20 - int k * 20)) (drop (nat (int k * 20)) xs)"
    by (intro slice_nonneg) simp_all
  moreover have "nat (int k * 20) = k * 20"
    by (simp add: nat_mult_distrib)
  ultimately show ?thesis by simp
qed

lemma page_posts:
  "fst (GetPaginatedPosts store (int (Suc k))) =
     Ok200 \<lparr>req_category = None, page = int (Suc k), limit = 20, totalPosts = length store,
            totalPages = (length store + 19) div 20,
            posts = map delete_html (take 20 (drop (k * 20) store))\<rparr>"
  using slice_page_of_nat [of store k]
  by (simp only: GetPaginatedPosts_body Math_ceil_div_20)

lemma heap_same_projection:
  "map delete_html (snd (GetPaginatedPosts store pg)) = map delete_html store"
  by (simp add: GetPaginatedPosts_heap map_delete_foldl)

lemma body_depends_on_projection:
  assumes "map delete_html heap = map delete_html store"
  shows "fst (GetPaginatedPosts heap pg) = fst (GetPaginatedPosts store pg)"
proof -
  have "length heap = length store"
    using arg_cong [OF assms, of length] by simp
  moreover have "map delete_html (slice heap a b) = map delete_html (slice store a b)" for a b
    using assms by (simp add: slice_map [symmetric])
  ultimately show ?thesis
    by (simp add: GetPaginatedPosts_body)
qed

lemma serve_pages_in_sequence:
  assumes "map delete_html heap = map delete_html store"
  shows "fst (serve heap (map Paginate pgs))
         = map (\<lambda>pg. Page (fst (GetPaginatedPosts store pg))) pgs"
  using assms
proof (induction pgs arbitrary: heap)
  case Nil
  then show ?case by simp
next
  case (Cons pg pgs)
  obtain r heap' where step: "GetPaginatedPosts heap pg = (r, heap')"
    by (cases "GetPaginatedPosts heap pg")
  have "map delete_html heap' = map delete_html heap"
    using heap_same_projection [of heap pg] step by simp
  with Cons.prems have proj: "map delete_html heap' = map delete_html store"
    by simp
  have "r = fst (GetPaginatedPosts store pg)"
    using body_depends_on_projection [OF Cons.prems, of pg] step by simp
  with Cons.IH [OF proj] step show ?case
    by (auto split: prod.splits)
qed

text \<open>
  C5: the \<open>posts\<close> arrays of the pages 1 to \<open>totalPages\<close>, one after the other, are the
  whole collection in its stored order, each post once (as a page shows it, without
  \<open>html\<close>). This holds for the pages taken from one state of the store and for the pages
  requested in sequence.
\<close>

theorem pages_cover_collection:
  "\<exists>bs. map (\<lambda>pg. fst (GetPaginatedPosts store pg))
            (map int [1..<Suc (Math_ceil_div (length store) 20)]) = map Ok200 bs
     \<and> fst (serve store (map Paginate (map int [1..<Suc (Math_ceil_div (length store) 20)])))
         = map (\<lambda>b. Page (Ok200 b)) bs
     \<and> concat (map posts bs) = map (\<lambda>p. p\<lparr>html := None\<rparr>) store
     \<and> map id' (concat (map posts bs)) = map id' store"
proof -
  let ?tp = "(length store + 19) div 20"
  let ?body = "\<lambda>k. \<lparr>req_category = None, page = int (Suc k), limit = 20,
                    totalPosts = length store, totalPages = ?tp,
                    posts = map delete_html (take 20 (drop (k * 20) store))\<rparr>"
  let ?bs = "map ?body [0..<?tp]"
  have strip: "delete_html = (\<lambda>p. p\<lparr>html := None\<rparr>)"
    by (rule ext) (simp add: delete_html_def)
  have pages: "map int [1..<Suc ?tp] = map (\<lambda>k. int (Suc k)) [0..<?tp]"
    by (simp add: map_Suc_upt [symmetric] del: upt_Suc)
  have each: "map (\<lambda>pg. fst (GetPaginatedPosts store pg)) (map int [1..<Suc ?tp]) = map Ok200 ?bs"
    by (simp only: pages map_map comp_def page_posts)
  have "fst (serve store (map Paginate (map int [1..<Suc ?tp])))
        = map (\<lambda>pg. Page (fst (GetPaginatedPosts store pg))) (map int [1..<Suc ?tp])"
    by (rule serve_pages_in_sequence) (rule refl)
  also have "\<dots> = map Page (map (\<lambda>pg. fst (GetPaginatedPosts store pg)) (map int [1..<Suc ?tp]))"
    by (simp only: map_map comp_def)
  also have "\<dots> = map Page (map Ok200 ?bs)"
    by (simp only: each)
  also have "\<dots> = map (\<lambda>b. Page (Ok200 b)) ?bs"
    by (simp only: map_map comp_def)
  finally have seq: "fst (serve store (map Paginate (map int [1..<Suc ?tp])))
                     = map (\<lambda>b. Page (Ok200 b)) ?bs" .
  have "concat (map posts ?bs)
        = concat (map (map delete_html) (map (\<lambda>k. take 20 (drop (k * 20) store)) [0..<?tp]))"
    by (simp add: comp_def)
  also have "\<dots> = map delete_html (concat (map (\<lambda>k. take 20 (drop (k * 20) store)) [0..<?tp]))"
    by (simp only: map_concat)
  also have "\<dots> = map delete_html store"
    by (simp only: concat_all_pages)
  finally have all: "concat (map posts ?bs) = map (\<lambda>p. p\<lparr>html := None\<rparr>) store"
    by (simp only: strip)
  have ids: "map id' (concat (map posts ?bs)) = map id' store"
    unfolding all by simp
  show ?thesis
    unfolding Math_ceil_div_20
  proof (intro exI conjI)
    show "map (\<lambda>pg. fst (GetPaginatedPosts store pg)) (map int [1..<Suc ?tp]) = map Ok200 ?bs"
      by (rule each)
    show "fst (serve store (map Paginate (map int [1..<Suc ?tp]))) = map (\<lambda>b. Page (Ok200 b)) ?bs"
      by (rule seq)
    show "concat (map posts ?bs) = map (\<lambda>p. p\<lparr>html := None\<rparr>) store"
      by (rule all)
    show "map id' (concat (map posts ?bs)) = map id' store"
      by (rule ids)
  qed
qed

subsection \<open>The body markup of a single post\<close>





text \<open>
  What the handler then sends is built from the record found: every property as found,
  and \<open>html\<close> passed through \<^verbatim>\<open>JSON.stringify\<close> when the response is built, which puts a
  markup string between double quotes and so never leaves it as it was.
\<close>

lemma GetPostById_sends_found_post:
  "GetPostById store i =
     (case find_post store i of
        None \<Rightarrow> Status404 ''Post not found''
      | Some p \<Rightarrow> Ok200 (p\<lparr>html := map_option JSON_stringify (html p)\<rparr>))"
  by (simp add: GetPostById_def find_post_def)

lemma length_quote_char: "1 \<le> length (quote_char c)"
  by (simp add: quote_char_def)

lemma length_concat_quote_char: "length s \<le> length (concat (map quote_char s))"
proof (induction s)
  case Nil
  then show ?case by simp
next
  case (Cons c s)
  with length_quote_char [of c] show ?case by simp
qed

lemma length_JSON_stringify: "length s + 2 \<le> length (JSON_stringify s)"
  using length_concat_quote_char [of s] by (simp add: JSON_stringify_def)

lemma JSON_stringify_neq: "JSON_stringify s \<noteq> s"
  using length_JSON_stringify [of s] by auto

subsection \<open>The store after a page was served\<close>

text \<open>
  C1 at a store of one post with body markup: serving page 1, of all posts or of the
  post's category, leaves the stored post without \<open>html\<close>, so the store is not what it
  was; a request for the post by id is answered with the markup before the page was
  served and without any \<open>html\<close> after it.
\<close>

theorem paginate_deletes_stored_html:
  "html sample_post = Some ''<p>hi</p>''
   \<and> snd (GetPaginatedPosts [sample_post] 1) = [sample_post\<lparr>html := None\<rparr>]
   \<and> snd (GetPaginatedPostsByCategory [sample_post] ''Technology'' 1) = [sample_post\<lparr>html := None\<rparr>]
   \<and> snd (serve [sample_post] [Paginate 1]) \<noteq> [sample_post]
   \<and> fst (serve [sample_post] [GetById ''1''])
       = [Post (Ok200 (sample_post\<lparr>html := Some ([CHR 0x22] @ ''<p>hi</p>'' @ [CHR 0x22])\<rparr>))]
   \<and> last (fst (serve [sample_post] [Paginate 1, GetById ''1'']))
       = Post (Ok200 (sample_post\<lparr>html := None\<rparr>))"
  by (simp add: GetPaginatedPosts_def GetPaginatedPostsByCategory_def GetPostById_def
      slice_def delete_html_at_def delete_html_def sample_post_def JSON_stringify_def
      quote_char_def Let_def)

end
